theory Spec2Isabelle
  imports Main
begin

section \<open>The de-duplication key: \<open>getCacheName\<close>\<close>

text \<open>
  \<^verbatim>\<open>getCacheName\<close> builds the key with a template literal,
  \<^verbatim>\<open>`${message.guid}:${delivered}:${read}`\<close>, where \<^verbatim>\<open>delivered\<close> and
  \<^verbatim>\<open>read\<close> are the millisecond values of the two dates, or \<^verbatim>\<open>0\<close> when the
  date is absent. A date is modelled by its \<^verbatim>\<open>getTime()\<close> value, an integer number
  of milliseconds; an absent date (\<^verbatim>\<open>null\<close>, falsy) is \<open>None\<close>. A template
  literal prints an integer in decimal, with a leading minus sign when it is negative.
\<close>

definition digit_char :: "nat \<Rightarrow> char" where
  "digit_char d = char_of (48 + d)"

fun string_of_nat :: "nat \<Rightarrow> string" where
  "string_of_nat n =
     (if n < 10 then [digit_char n]
      else string_of_nat (n div 10) @ [digit_char (n mod 10)])"

declare string_of_nat.simps [simp del]

definition numberToString :: "int \<Rightarrow> string" where
  "numberToString i =
     (if i < 0 then CHR ''-'' # string_of_nat (nat (- i)) else string_of_nat (nat i))"

text \<open>The fields of the \<^verbatim>\<open>Message\<close> entity that \<^verbatim>\<open>getCacheName\<close> reads.\<close>

record Message =
  guid :: string
  dateDelivered :: "int option"
  dateRead :: "int option"

definition getCacheName :: "'m Message_scheme \<Rightarrow> string" where
  "getCacheName message =
     (let delivered = (case dateDelivered message of Some d \<Rightarrow> d | None \<Rightarrow> 0);
          read = (case dateRead message of Some d \<Rightarrow> d | None \<Rightarrow> 0)
      in guid message @ '':'' @ numberToString delivered @ '':'' @ numberToString read)"

text \<open>The delivered and read times as the key sees them: \<open>0\<close> when absent.\<close>

definition deliveredTime :: "'m Message_scheme \<Rightarrow> int" where
  "deliveredTime message = (case dateDelivered message of Some d \<Rightarrow> d | None \<Rightarrow> 0)"

definition readTime :: "'m Message_scheme \<Rightarrow> int" where
  "readTime message = (case dateRead message of Some d \<Rightarrow> d | None \<Rightarrow> 0)"

section \<open>The poll coordinator: \<open>IMessageListener\<close>\<close>

text \<open>
  Timestamps are milliseconds since the epoch, as \<open>int\<close>: the value of a \<^verbatim>\<open>Date\<close>
  (\<^verbatim>\<open>getTime()\<close>) and the modification time of a stat result (\<^verbatim>\<open>mtimeMs\<close>, taken
  in whole milliseconds). The change event of the watcher carries the path and the stat
  results before and after the change.
\<close>

datatype error = StatError string | PollerError string | ConsumerError string | UnhandledError

record Stats =
  mtimeMs :: int

record FileChangeEvent =
  filePath :: string
  prevStat :: Stats
  currentStat :: Stats

text \<open>
  The coordination lock is a counting semaphore created with one token
  (\<^verbatim>\<open>new Sema(1)\<close>). \<^verbatim>\<open>acquire\<close> takes a free token, or else queues the caller;
  \<^verbatim>\<open>release\<close> hands the token to the first queued caller, or else puts it back;
  \<^verbatim>\<open>nrWaiting\<close> is the length of the queue.
\<close>

record Sema =
  free :: nat
  waiting :: nat

definition Sema_new :: "nat \<Rightarrow> Sema" where
  "Sema_new nr = \<lparr>free = nr, waiting = 0\<rparr>"

definition acquire :: "Sema \<Rightarrow> bool \<times> Sema" where
  "acquire l =
     (if 0 < free l then (True, l\<lparr>free := free l - 1\<rparr>)
      else (False, l\<lparr>waiting := waiting l + 1\<rparr>))"

definition release :: "Sema \<Rightarrow> Sema" where
  "release l =
     (if 0 < waiting l then l\<lparr>waiting := waiting l - 1\<rparr>
      else l\<lparr>free := free l + 1\<rparr>)"

definition nrWaiting :: "Sema \<Rightarrow> nat" where
  "nrWaiting l = waiting l"

text \<open>
  Callers that reach \<^verbatim>\<open>acquire\<close> while the holder of the lock is suspended in an
  \<^verbatim>\<open>await\<close>: each of them runs \<^verbatim>\<open>acquire\<close> once.
\<close>

definition arrive :: "nat \<Rightarrow> Sema \<Rightarrow> Sema" where
  "arrive n l = ((\<lambda>l. snd (acquire l)) ^^ n) l"

text \<open>
  The change notifier, as far as the coordinator uses it: it is built over the watched
  paths, handlers are subscribed to its events by name, and it is started.
\<close>

record MultiFileWatcher =
  watchedPaths :: "string list"
  subscriptions :: "string list"
  running :: bool

text \<open>
  What a poller returns: the name of an event and its payload. A poller is called with the
  \<^verbatim>\<open>after\<close> timestamp; it reads and updates the shared cache, and it either returns
  its results or throws.
\<close>

record 'd IMessagePollResult =
  eventType :: string
  data :: 'd

type_synonym ('c, 'd) IMessagePoller =
  "int \<Rightarrow> 'c \<Rightarrow> (error + 'd IMessagePollResult list) \<times> 'c"

text \<open>
  The effects of the coordinator that can be observed from outside, in the order in which
  they happen: the lock being taken, queued on and released, the watermark being assigned,
  a poller being called (its index in the registry and the \<^verbatim>\<open>after\<close> it is given), a
  result being emitted and delivered to a subscribed listener, the caches being trimmed,
  a timed wait, and the notifier being started.
\<close>

datatype 'd effect =
    Acquired
  | Enqueued
  | Released
  | SetLastCheck int
  | PollerPoll nat int
  | Emit string 'd
  | Deliver nat string 'd
  | TrimCaches
  | WaitMs nat
  | WatcherStart

text \<open>
  A listener subscribed to the emitter that the class inherits: a consumer of the events.
  Called with a payload it returns, or it throws; what else it does is outside the
  coordinator.
\<close>

record 'd Listener =
  lid :: nat
  consume :: "'d \<Rightarrow> error option"

text \<open>
  The fields of the class. \<open>listeners\<close> are the subscriptions of the event emitter the
  class inherits (event name and listener); \<open>effects\<close> is the log of observable effects.
  The fields \<^verbatim>\<open>tag\<close> and \<^verbatim>\<open>repo\<close> are left out: no method of the class reads them.
  The cache is the one object that the coordinator trims and the pollers read and update.
\<close>

record ('c, 'd) IMessageListener =
  stopped :: bool
  filePaths :: "string list"
  watcher :: "MultiFileWatcher option"
  processLock :: Sema
  pollers :: "('c, 'd) IMessagePoller list"
  cache :: 'c
  lastCheck :: int
  listeners :: "(string \<times> 'd Listener) list"
  effects :: "'d effect list"

datatype outcome = Returned | Suspended | Threw error

definition IMessageListener_new :: "string list \<Rightarrow> 'c \<Rightarrow> ('c, 'd) IMessageListener" where
  "IMessageListener_new paths c =
     \<lparr>stopped = False, filePaths = paths, watcher = None, processLock = Sema_new 1,
      pollers = [], cache = c, lastCheck = 0, listeners = [], effects = []\<rparr>"

text \<open>
  The inherited emitter: \<^verbatim>\<open>on\<close>, \<^verbatim>\<open>emit\<close> and \<^verbatim>\<open>removeAllListeners\<close>.
  \<^verbatim>\<open>emit\<close> calls the listeners subscribed to the name of the event, one after the other
  in the order of their subscription, inside the call. A listener that throws ends the
  call with its error, and the listeners after it are not called. An event named
  \<^verbatim>\<open>error\<close> with no listener subscribed to it makes \<^verbatim>\<open>emit\<close> throw.
\<close>

definition on ::
  "string \<Rightarrow> 'd Listener \<Rightarrow> ('c, 'd) IMessageListener \<Rightarrow> ('c, 'd) IMessageListener" where
  "on name l s = s\<lparr>listeners := listeners s @ [(name, l)]\<rparr>"

fun deliver ::
  "string \<Rightarrow> 'd \<Rightarrow> 'd Listener list \<Rightarrow> ('c, 'd) IMessageListener
     \<Rightarrow> error option \<times> ('c, 'd) IMessageListener" where
  "deliver name payload [] s = (None, s)"
| "deliver name payload (l # ls) s =
     (let s1 = s\<lparr>effects := effects s @ [Deliver (lid l) name payload]\<rparr>
      in case consume l payload of
           Some e \<Rightarrow> (Some e, s1)
         | None \<Rightarrow> deliver name payload ls s1)"

definition emit ::
  "string \<Rightarrow> 'd \<Rightarrow> ('c, 'd) IMessageListener \<Rightarrow> error option \<times> ('c, 'd) IMessageListener" where
  "emit name payload s =
     (let ls = map snd (filter (\<lambda>(n, l). n = name) (listeners s));
          s1 = s\<lparr>effects := effects s @ [Emit name payload]\<rparr>
      in if name = ''error'' \<and> ls = [] then (Some UnhandledError, s1)
         else deliver name payload ls s1)"

definition removeAllListeners :: "('c, 'd) IMessageListener \<Rightarrow> ('c, 'd) IMessageListener" where
  "removeAllListeners s = s\<lparr>listeners := []\<rparr>"

definition stop :: "('c, 'd) IMessageListener \<Rightarrow> ('c, 'd) IMessageListener" where
  "stop s = removeAllListeners (s\<lparr>stopped := True\<rparr>)"

definition addPoller ::
  "('c, 'd) IMessagePoller \<Rightarrow> ('c, 'd) IMessageListener \<Rightarrow> ('c, 'd) IMessageListener" where
  "addPoller poller s = s\<lparr>pollers := pollers s @ [poller]\<rparr>"

text \<open>
  \<^verbatim>\<open>getEarliestModifiedDate\<close>: \<open>now\<close> is the clock read by \<^verbatim>\<open>new Date()\<close>, and the
  file system gives the modification time of the paths that exist; \<^verbatim>\<open>statSync\<close> throws
  for a path that does not.
\<close>

fun earliest_loop :: "(string \<rightharpoonup> int) \<Rightarrow> string list \<Rightarrow> int \<Rightarrow> error + int" where
  "earliest_loop fs [] earliest = Inr earliest"
| "earliest_loop fs (p # ps) earliest =
     (case fs p of
        None \<Rightarrow> Inl (StatError p)
      | Some mtime \<Rightarrow> earliest_loop fs ps (if mtime < earliest then mtime else earliest))"

definition getEarliestModifiedDate ::
  "(string \<rightharpoonup> int) \<Rightarrow> int \<Rightarrow> ('c, 'd) IMessageListener \<Rightarrow> error + int" where
  "getEarliestModifiedDate fs now s = earliest_loop fs (filePaths s) now"

text \<open>
  \<^verbatim>\<open>poll\<close>: the loop over the registry. The index of the poller is carried along for the
  log only. Nothing in the loop catches: a poller that throws ends it, and so does an
  \<^verbatim>\<open>emit\<close> that throws. The two clock reads of the loop body (\<^verbatim>\<open>startMs\<close>,
  \<^verbatim>\<open>endMs\<close>) are left out, their values are not used.
\<close>

fun emit_results ::
  "'d IMessagePollResult list \<Rightarrow> ('c, 'd) IMessageListener
     \<Rightarrow> error option \<times> ('c, 'd) IMessageListener" where
  "emit_results [] s = (None, s)"
| "emit_results (r # rs) s =
     (case emit (eventType r) (data r) s of
        (Some e, s1) \<Rightarrow> (Some e, s1)
      | (None, s1) \<Rightarrow> emit_results rs s1)"

fun poll_loop ::
  "nat \<Rightarrow> ('c, 'd) IMessagePoller list \<Rightarrow> int \<Rightarrow> bool \<Rightarrow> ('c, 'd) IMessageListener
     \<Rightarrow> error option \<times> ('c, 'd) IMessageListener" where
  "poll_loop i [] after emitResults s = (None, s)"
| "poll_loop i (poller # rest) after emitResults s =
     (case poller after (cache s) of
        (Inl e, c) \<Rightarrow>
          (Some e, s\<lparr>cache := c, effects := effects s @ [PollerPoll i after]\<rparr>)
      | (Inr results, c) \<Rightarrow>
          (let s1 = s\<lparr>cache := c, effects := effects s @ [PollerPoll i after]\<rparr>
           in case (if emitResults then emit_results results s1 else (None, s1)) of
                (Some e, s2) \<Rightarrow> (Some e, s2)
              | (None, s2) \<Rightarrow> poll_loop (Suc i) rest after emitResults s2))"

definition poll ::
  "int \<Rightarrow> bool \<Rightarrow> ('c, 'd) IMessageListener \<Rightarrow> error option \<times> ('c, 'd) IMessageListener" where
  "poll after emitResults s = poll_loop 0 (pollers s) after emitResults s"

text \<open>
  \<^verbatim>\<open>start\<close>. The watcher is created, subscribed to and started only when the seed poll
  has returned.
\<close>

definition start ::
  "(string \<rightharpoonup> int) \<Rightarrow> int \<Rightarrow> ('c, 'd) IMessageListener \<Rightarrow> outcome \<times> ('c, 'd) IMessageListener" where
  "start fs now s =
     (let s1 = s\<lparr>lastCheck := 0, stopped := False, effects := effects s @ [SetLastCheck 0]\<rparr>
      in case getEarliestModifiedDate fs now s1 of
           Inl e \<Rightarrow> (Threw e, s1)
         | Inr earliest \<Rightarrow>
             (case poll (earliest - 60000) False s1 of
                (Some e, s2) \<Rightarrow> (Threw e, s2)
              | (None, s2) \<Rightarrow>
                  (Returned,
                   s2\<lparr>watcher := Some \<lparr>watchedPaths = filePaths s2,
                                        subscriptions = [''change'', ''error''],
                                        running = True\<rparr>,
                      effects := effects s2 @ [WatcherStart]\<rparr>)))"

text \<open>
  \<^verbatim>\<open>handleChangeEvent\<close>, the body that the debounce decorator wraps. \<open>trimCaches\<close> is
  the trimming operation of the cache (\<^verbatim>\<open>this.cache.trimCaches()\<close>). \<open>arrivals\<close> is the
  number of other callers that reach \<^verbatim>\<open>acquire\<close> while this execution awaits its poll.
  An execution that finds no free token is suspended in the queue of the lock; when a
  release hands it the token it continues after the \<^verbatim>\<open>acquire\<close>, which is
  \<open>handleChangeEvent_resume\<close>. The calls of the logger are left out. No \<^verbatim>\<open>try\<close>
  surrounds the poll: when a poller or a listener throws in it, the rest of the body, the
  release included, is not run.
\<close>

definition handleChangeEvent_locked ::
  "('c \<Rightarrow> 'c) \<Rightarrow> nat \<Rightarrow> FileChangeEvent \<Rightarrow> ('c, 'd) IMessageListener
     \<Rightarrow> outcome \<times> ('c, 'd) IMessageListener" where
  "handleChangeEvent_locked trimCaches arrivals event s =
     (if lastCheck s < mtimeMs (currentStat event) then
        (let s1 = s\<lparr>lastCheck := mtimeMs (currentStat event),
                     effects := effects s @ [SetLastCheck (mtimeMs (currentStat event))]\<rparr>
         in case poll (mtimeMs (prevStat event) - 30000) True s1 of
              (Some e, s2) \<Rightarrow>
                (Threw e, s2\<lparr>processLock := arrive arrivals (processLock s2)\<rparr>)
            | (None, s2) \<Rightarrow>
                (let s3 = s2\<lparr>processLock := arrive arrivals (processLock s2)\<rparr>;
                     s4 = s3\<lparr>cache := trimCaches (cache s3),
                             effects := effects s3 @ [TrimCaches]\<rparr>;
                     s5 = (if 0 < nrWaiting (processLock s4)
                           then s4\<lparr>effects := effects s4 @ [WaitMs 100]\<rparr> else s4)
                 in (Returned, s5\<lparr>processLock := release (processLock s5),
                                  effects := effects s5 @ [Released]\<rparr>)))
      else (Returned, s\<lparr>processLock := release (processLock s),
                        effects := effects s @ [Released]\<rparr>))"

definition handleChangeEvent ::
  "('c \<Rightarrow> 'c) \<Rightarrow> nat \<Rightarrow> FileChangeEvent \<Rightarrow> ('c, 'd) IMessageListener
     \<Rightarrow> outcome \<times> ('c, 'd) IMessageListener" where
  "handleChangeEvent trimCaches arrivals event s =
     (case acquire (processLock s) of
        (True, l) \<Rightarrow>
          handleChangeEvent_locked trimCaches arrivals event
            (s\<lparr>processLock := l, effects := effects s @ [Acquired]\<rparr>)
      | (False, l) \<Rightarrow>
          (Suspended, s\<lparr>processLock := l, effects := effects s @ [Enqueued]\<rparr>))"

definition handleChangeEvent_resume ::
  "('c \<Rightarrow> 'c) \<Rightarrow> nat \<Rightarrow> FileChangeEvent \<Rightarrow> ('c, 'd) IMessageListener
     \<Rightarrow> outcome \<times> ('c, 'd) IMessageListener" where
  "handleChangeEvent_resume trimCaches arrivals event s =
     handleChangeEvent_locked trimCaches arrivals event (s\<lparr>effects := effects s @ [Acquired]\<rparr>)"

subsection \<open>Reading the log\<close>

text \<open>The effects that an operation added to the log, and the parts of a log.\<close>

definition added :: "('c, 'd) IMessageListener \<Rightarrow> ('c, 'd) IMessageListener \<Rightarrow> 'd effect list" where
  "added s s' = drop (length (effects s)) (effects s')"

fun is_poll :: "'d effect \<Rightarrow> bool" where
  "is_poll (PollerPoll i after) = True"
| "is_poll _ = False"

fun is_emit :: "'d effect \<Rightarrow> bool" where
  "is_emit (Emit name payload) = True"
| "is_emit (Deliver l name payload) = True"
| "is_emit _ = False"


definition polls_of :: "'d effect list \<Rightarrow> 'd effect list" where
  "polls_of es = filter is_poll es"

definition emits_of :: "'d effect list \<Rightarrow> 'd effect list" where
  "emits_of es = filter is_emit es"

subsection \<open>Predicates on pollers and logs\<close>

text \<open>A poller that returns for the given \<^verbatim>\<open>after\<close>, whatever the cache holds.\<close>

definition never_throws :: "int \<Rightarrow> ('c, 'd) IMessagePoller \<Rightarrow> bool" where
  "never_throws after poller = (\<forall>c. \<not> isl (fst (poller after c)))"

text \<open>
  A result that the subscribed listeners take without throwing: none of the listeners of
  its event throws on its payload, and if its event is named \<^verbatim>\<open>error\<close> a listener is
  subscribed to that name. A poller all of whose results, for the given \<^verbatim>\<open>after\<close> and
  whatever the cache holds, are such.
\<close>

definition handled :: "(string \<times> 'd Listener) list \<Rightarrow> 'd IMessagePollResult \<Rightarrow> bool" where
  "handled ls r =
     (list_all (\<lambda>(n, l). n \<noteq> eventType r \<or> consume l (data r) = None) ls
      \<and> (eventType r \<noteq> ''error'' \<or> list_ex (\<lambda>(n, l). n = ''error'') ls))"

definition emits_safely ::
  "(string \<times> 'd Listener) list \<Rightarrow> int \<Rightarrow> ('c, 'd) IMessagePoller \<Rightarrow> bool" where
  "emits_safely ls after poller =
     (\<forall>c. case fst (poller after c) of Inl e \<Rightarrow> True | Inr rs \<Rightarrow> list_all (handled ls) rs)"

text \<open>
  The cache as a poller of the registry finds it, when the pollers before it have
  returned: each of them has been called on the cache its predecessor left.
\<close>

fun cache_before :: "('c, 'd) IMessagePoller list \<Rightarrow> int \<Rightarrow> 'c \<Rightarrow> 'c" where
  "cache_before [] after c = c"
| "cache_before (poller # rest) after c = cache_before rest after (snd (poller after c))"





subsection \<open>A concrete coordinator\<close>

definition ex_rows :: "(int \<times> string \<times> string) list" where
  "ex_rows = [(99900, ''key-a'', ''row-a''), (60000, ''key-b'', ''row-b'')]"

definition ex_poller :: "(string list, string) IMessagePoller" where
  "ex_poller after c =
     (let new = filter (\<lambda>(t, k, d). after < t \<and> k \<notin> set c) ex_rows
      in (Inr (map (\<lambda>(t, k, d). \<lparr>eventType = ''new-message'', data = d\<rparr>) new),
          c @ map (\<lambda>(t, k, d). k) new))"

definition ex_failing_poller :: "(string list, string) IMessagePoller" where
  "ex_failing_poller after c = (Inl (PollerError ''database is locked''), c)"

definition ex_trimCaches :: "string list \<Rightarrow> string list" where
  "ex_trimCaches c = drop (length c - 100) c"

definition ex_consumer :: "string Listener" where
  "ex_consumer = \<lparr>lid = 1, consume = (\<lambda>payload. None)\<rparr>"

definition ex_listener :: "(string list, string) IMessageListener" where
  "ex_listener =
     on ''new-message'' ex_consumer (addPoller ex_poller (IMessageListener_new [''chat.db''] []))"

definition ex_listener_failing :: "(string list, string) IMessageListener" where
  "ex_listener_failing =
     on ''new-message'' ex_consumer
       (addPoller ex_poller (addPoller ex_failing_poller (IMessageListener_new [''chat.db''] [])))"

definition ex_listener_failing_later :: "(string list, string) IMessageListener" where
  "ex_listener_failing_later =
     on ''new-message'' ex_consumer
       (addPoller ex_failing_poller (addPoller ex_poller (IMessageListener_new [''chat.db''] [])))"

definition ex_throwing_consumer :: "string Listener" where
  "ex_throwing_consumer = \<lparr>lid = 2, consume = (\<lambda>payload. Some (ConsumerError payload))\<rparr>"

definition ex_listener_throwing_consumer :: "(string list, string) IMessageListener" where
  "ex_listener_throwing_consumer = on ''new-message'' ex_throwing_consumer ex_listener"

definition ex_event :: FileChangeEvent where
  "ex_event = \<lparr>filePath = ''chat.db'', prevStat = \<lparr>mtimeMs = 100000\<rparr>,
               currentStat = \<lparr>mtimeMs = 200000\<rparr>\<rparr>"

definition ex_event_later :: FileChangeEvent where
  "ex_event_later = \<lparr>filePath = ''chat.db-wal'', prevStat = \<lparr>mtimeMs = 200000\<rparr>,
                     currentStat = \<lparr>mtimeMs = 200300\<rparr>\<rparr>"

definition ex_fs :: "string \<rightharpoonup> int" where
  "ex_fs = [''chat.db'' \<mapsto> 150000]"

lemmas ex_defs = ex_rows_def ex_poller_def ex_failing_poller_def ex_trimCaches_def ex_listener_def
  ex_consumer_def ex_listener_failing_later_def ex_throwing_consumer_def
  ex_listener_throwing_consumer_def ex_event_later_def
  ex_listener_failing_def ex_event_def ex_fs_def IMessageListener_new_def on_def addPoller_def
  Sema_new_def

lemmas run_defs = handleChangeEvent_def handleChangeEvent_locked_def handleChangeEvent_resume_def
  poll_def acquire_def release_def nrWaiting_def arrive_def emit_def added_def Let_def
  start_def getEarliestModifiedDate_def stop_def removeAllListeners_def

definition ex_polled :: "(string list, string) IMessageListener" where
  "ex_polled = snd (handleChangeEvent ex_trimCaches 0 ex_event ex_listener)"

definition ex_started :: "(string list, string) IMessageListener" where
  "ex_started = snd (start ex_fs 900000 ex_listener)"


section \<open>The debounce decorator\<close>

text \<open>
  Modelled from the spec: the state of the debounce decorator
  \<^verbatim>\<open>DebounceSubsequentWithWait\<close> (\<^verbatim>\<open>@server/lib/decorators/DebounceDecorator\<close>, which is
  not among the sources) for one key. At most one call is pending, with its arguments
  and the time at which its timer fires; \<open>fired\<close> lists the executions of the handler,
  each with the time of the execution and the arguments it was given.
\<close>

record 'a Debouncer =
  pending :: "('a \<times> int) option"
  fired :: "(int \<times> 'a) list"

text \<open>Modelled from the spec: the decorator before any call, with nothing pending.\<close>

definition debouncer_idle :: "'a Debouncer" where
  "debouncer_idle = \<lparr>pending = None, fired = []\<rparr>"

text \<open>
  Modelled from the spec: time passing up to \<open>t\<close>. The timer of the pending call fires
  when its time has come, and the handler is executed with the pending arguments.
\<close>

definition elapse :: "int \<Rightarrow> 'a Debouncer \<Rightarrow> 'a Debouncer" where
  "elapse t g =
     (case pending g of
        None \<Rightarrow> g
      | Some (args, due) \<Rightarrow>
          if due \<le> t then g\<lparr>pending := None, fired := fired g @ [(due, args)]\<rparr> else g)"

text \<open>
  Modelled from the spec: an invocation of the wrapped handler at time \<open>t\<close>. With no call
  pending it schedules the execution after \<open>wait\<close>; with a call pending whose timer has
  not fired it replaces that call, arguments and timer, instead of adding a timer.
\<close>

definition invoke :: "int \<Rightarrow> int \<Rightarrow> 'a \<Rightarrow> 'a Debouncer \<Rightarrow> 'a Debouncer" where
  "invoke wait t args g = (elapse t g)\<lparr>pending := Some (args, t + wait)\<rparr>"

text \<open>
  Modelled from the spec: a sequence of invocations, each with its time, in the order of
  arrival.
\<close>

fun invoke_all :: "int \<Rightarrow> (int \<times> 'a) list \<Rightarrow> 'a Debouncer \<Rightarrow> 'a Debouncer" where
  "invoke_all wait [] g = g"
| "invoke_all wait ((t, args) # calls) g = invoke_all wait calls (invoke wait t args g)"

text \<open>
  The decorated \<^verbatim>\<open>handleChangeEvent\<close>: the notifications of the watcher go through the
  decorator with a wait of 500 ms, and the body runs once for each execution that the
  decorator lets through up to the time \<open>T\<close>.
\<close>

fun run_fired ::
  "('c \<Rightarrow> 'c) \<Rightarrow> nat \<Rightarrow> (int \<times> FileChangeEvent) list \<Rightarrow> ('c, 'd) IMessageListener
     \<Rightarrow> ('c, 'd) IMessageListener" where
  "run_fired trimCaches k [] s = s"
| "run_fired trimCaches k ((t, event) # rest) s =
     run_fired trimCaches k rest (snd (handleChangeEvent trimCaches k event s))"

definition debounced_handleChangeEvent ::
  "('c \<Rightarrow> 'c) \<Rightarrow> nat \<Rightarrow> (int \<times> FileChangeEvent) list \<Rightarrow> int \<Rightarrow> ('c, 'd) IMessageListener
     \<Rightarrow> ('c, 'd) IMessageListener" where
  "debounced_handleChangeEvent trimCaches k notifications T s =
     run_fired trimCaches k (fired (elapse T (invoke_all 500 notifications debouncer_idle))) s"

definition ex_burst :: "(int \<times> FileChangeEvent) list" where
  "ex_burst =
     [(1000, \<lparr>filePath = ''chat.db'', prevStat = \<lparr>mtimeMs = 100000\<rparr>,
              currentStat = \<lparr>mtimeMs = 200000\<rparr>\<rparr>),
      (1200, \<lparr>filePath = ''chat.db-wal'', prevStat = \<lparr>mtimeMs = 200000\<rparr>,
              currentStat = \<lparr>mtimeMs = 200200\<rparr>\<rparr>),
      (1499, \<lparr>filePath = ''chat.db'', prevStat = \<lparr>mtimeMs = 200200\<rparr>,
              currentStat = \<lparr>mtimeMs = 200499\<rparr>\<rparr>)]"

section \<open>Properties of the de-duplication key\<close>

subsection \<open>Decimal printing is injective and never prints a colon\<close>

lemma digit_char_neq_colon: "d < 10 \<Longrightarrow> digit_char d \<noteq> CHR '':''"
proof
  assume "d < 10" and "digit_char d = CHR '':''"
  then have "of_char (digit_char d) = (58::nat)" by simp
  with \<open>d < 10\<close> show False by (simp add: digit_char_def take_bit_eq_mod)
qed

lemma digit_char_neq_minus: "d < 10 \<Longrightarrow> digit_char d \<noteq> CHR ''-''"
proof
  assume "d < 10" and "digit_char d = CHR ''-''"
  then have "of_char (digit_char d) = (45::nat)" by simp
  with \<open>d < 10\<close> show False by (simp add: digit_char_def take_bit_eq_mod)
qed

lemma digit_char_inj:
  assumes "a < 10" and "b < 10" and "digit_char a = digit_char b"
  shows "a = b"
  using assms unfolding digit_char_def char_of_eq_iff
  by (simp add: take_bit_eq_mod)

lemma string_of_nat_digits: "c \<in> set (string_of_nat n) \<Longrightarrow> \<exists>d<10. c = digit_char d"
proof (induction n rule: string_of_nat.induct)
  case (1 n)
  show ?case
  proof (cases "n < 10")
    case True
    with "1.prems" show ?thesis by (auto simp: string_of_nat.simps [of n])
  next
    case False
    with "1.prems" have "c \<in> set (string_of_nat (n div 10)) \<or> c = digit_char (n mod 10)"
      by (auto simp: string_of_nat.simps [of n])
    then show ?thesis
    proof
      assume "c \<in> set (string_of_nat (n div 10))"
      with "1.IH" False show ?thesis by blast
    next
      assume "c = digit_char (n mod 10)"
      moreover have "n mod 10 < 10" by simp
      ultimately show ?thesis by blast
    qed
  qed
qed

lemma string_of_nat_nonempty: "string_of_nat n \<noteq> []"
  by (subst string_of_nat.simps) simp

lemma string_of_nat_inj: "string_of_nat n = string_of_nat m \<Longrightarrow> n = m"
proof (induction n arbitrary: m rule: string_of_nat.induct)
  case (1 n)
  show ?case
  proof (cases "n < 10")
    case n: True
    show ?thesis
    proof (cases "m < 10")
      case True
      with n "1.prems" show ?thesis
        by (simp add: string_of_nat.simps [of n] string_of_nat.simps [of m] digit_char_inj)
    next
      case False
      with n "1.prems" have "[digit_char n] = string_of_nat (m div 10) @ [digit_char (m mod 10)]"
        by (simp add: string_of_nat.simps [of n] string_of_nat.simps [of m])
      then show ?thesis using string_of_nat_nonempty [of "m div 10"] by auto
    qed
  next
    case n: False
    show ?thesis
    proof (cases "m < 10")
      case True
      with n "1.prems" have "string_of_nat (n div 10) @ [digit_char (n mod 10)] = [digit_char m]"
        by (simp add: string_of_nat.simps [of n] string_of_nat.simps [of m])
      then show ?thesis using string_of_nat_nonempty [of "n div 10"] by auto
    next
      case False
      with n "1.prems" have eq: "string_of_nat (n div 10) = string_of_nat (m div 10)"
        and d: "digit_char (n mod 10) = digit_char (m mod 10)"
        by (simp_all add: string_of_nat.simps [of n] string_of_nat.simps [of m])
      from "1.IH" [OF n eq] have "n div 10 = m div 10" .
      moreover from d have "n mod 10 = m mod 10" by (auto intro: digit_char_inj)
      ultimately show ?thesis by (metis div_mult_mod_eq)
    qed
  qed
qed

lemma string_of_nat_no_colon: "CHR '':'' \<notin> set (string_of_nat n)"
proof
  assume "CHR '':'' \<in> set (string_of_nat n)"
  then obtain d where "d < 10" and "CHR '':'' = digit_char d"
    using string_of_nat_digits by blast
  then show False using digit_char_neq_colon [of d] by simp
qed

lemma string_of_nat_no_minus: "CHR ''-'' \<notin> set (string_of_nat n)"
proof
  assume "CHR ''-'' \<in> set (string_of_nat n)"
  then obtain d where "d < 10" and "CHR ''-'' = digit_char d"
    using string_of_nat_digits by blast
  then show False using digit_char_neq_minus [of d] by simp
qed

lemma numberToString_no_colon: "CHR '':'' \<notin> set (numberToString i)"
  by (simp add: numberToString_def string_of_nat_no_colon)

lemma numberToString_inj: "numberToString i = numberToString j \<Longrightarrow> i = j"
proof -
  assume eq: "numberToString i = numberToString j"
  have hd_neg: "\<And>n. hd (string_of_nat n) \<noteq> CHR ''-''"
    using string_of_nat_no_minus string_of_nat_nonempty by (metis hd_in_set)
  show ?thesis
  proof (cases "i < 0")
    case i: True
    show ?thesis
    proof (cases "j < 0")
      case True
      with i eq have "nat (- i) = nat (- j)"
        by (auto simp: numberToString_def dest: string_of_nat_inj)
      with i True show ?thesis by simp
    next
      case False
      with i eq have "CHR ''-'' # string_of_nat (nat (- i)) = string_of_nat (nat j)"
        by (simp add: numberToString_def)
      then have "hd (string_of_nat (nat j)) = CHR ''-''" by (metis list.sel(1))
      with hd_neg show ?thesis by blast
    qed
  next
    case i: False
    show ?thesis
    proof (cases "j < 0")
      case True
      with i eq have "string_of_nat (nat i) = CHR ''-'' # string_of_nat (nat (- j))"
        by (simp add: numberToString_def)
      then have "hd (string_of_nat (nat i)) = CHR ''-''" by (metis list.sel(1))
      with hd_neg show ?thesis by blast
    next
      case False
      with i eq have "nat i = nat j"
        by (auto simp: numberToString_def dest: string_of_nat_inj)
      with i False show ?thesis by simp
    qed
  qed
qed

lemma split_at_last_sep:
  assumes "a @ c # b = a' @ c # b'" and "c \<notin> set b" and "c \<notin> set b'"
  shows "a = a' \<and> b = b'"
  using assms
proof (induction a arbitrary: a')
  case Nil
  then show ?case by (cases a') auto
next
  case (Cons x xs)
  then show ?case by (cases a') auto
qed

text \<open>
  Claim C9. The key of a message is its \<^verbatim>\<open>guid\<close> followed by the delivered and the
  read time (each \<open>0\<close> when the date is absent), so two messages have the same key exactly
  when their guid, delivered time and read time all agree: a row whose delivered or read
  time changes gets a key that differs from its old one, and an unchanged row keeps its key.
\<close>

theorem getCacheName_eq_iff:
  "getCacheName m1 = getCacheName m2 \<longleftrightarrow>
     guid m1 = guid m2 \<and> deliveredTime m1 = deliveredTime m2 \<and> readTime m1 = readTime m2"
proof
  assume eq: "getCacheName m1 = getCacheName m2"
  let ?c = "CHR '':''"
  have "(guid m1 @ ?c # numberToString (deliveredTime m1)) @ ?c # numberToString (readTime m1)
      = (guid m2 @ ?c # numberToString (deliveredTime m2)) @ ?c # numberToString (readTime m2)"
    using eq by (simp add: getCacheName_def deliveredTime_def readTime_def)
  from split_at_last_sep [OF this numberToString_no_colon numberToString_no_colon]
  have front: "guid m1 @ ?c # numberToString (deliveredTime m1)
             = guid m2 @ ?c # numberToString (deliveredTime m2)"
    and r: "numberToString (readTime m1) = numberToString (readTime m2)"
    by simp_all
  from split_at_last_sep [OF front numberToString_no_colon numberToString_no_colon]
  have "guid m1 = guid m2"
    and d: "numberToString (deliveredTime m1) = numberToString (deliveredTime m2)"
    by simp_all
  with r show "guid m1 = guid m2 \<and> deliveredTime m1 = deliveredTime m2 \<and> readTime m1 = readTime m2"
    by (simp add: numberToString_inj)
next
  assume "guid m1 = guid m2 \<and> deliveredTime m1 = deliveredTime m2 \<and> readTime m1 = readTime m2"
  then show "getCacheName m1 = getCacheName m2"
    by (simp add: getCacheName_def deliveredTime_def readTime_def)
qed

section \<open>The emitter and the poll loop\<close>

lemma deliver_frame:
  "lastCheck (snd (deliver n d ls s)) = lastCheck s
   \<and> processLock (snd (deliver n d ls s)) = processLock s
   \<and> cache (snd (deliver n d ls s)) = cache s \<and> pollers (snd (deliver n d ls s)) = pollers s
   \<and> listeners (snd (deliver n d ls s)) = listeners s
   \<and> stopped (snd (deliver n d ls s)) = stopped s
   \<and> watcher (snd (deliver n d ls s)) = watcher s
   \<and> filePaths (snd (deliver n d ls s)) = filePaths s"
  by (induction ls arbitrary: s) (simp_all add: Let_def split: option.splits)

lemma deliver_log:
  "\<exists>E. effects (snd (deliver n d ls s)) = effects s @ E \<and> (\<forall>e\<in>set E. is_emit e)"
proof (induction ls arbitrary: s)
  case Nil
  show ?case by simp
next
  case (Cons l ls)
  let ?s1 = "s\<lparr>effects := effects s @ [Deliver (lid l) n d]\<rparr>"
  show ?case
  proof (cases "consume l d")
    case None
    from Cons.IH [of ?s1] obtain E where
      "effects (snd (deliver n d ls ?s1)) = effects ?s1 @ E" "\<forall>e\<in>set E. is_emit e" by blast
    with None have "effects (snd (deliver n d (l # ls) s)) = effects s @ (Deliver (lid l) n d # E)"
      and "\<forall>e\<in>set (Deliver (lid l) n d # E). is_emit e"
      by (simp_all add: Let_def)
    then show ?thesis by blast
  next
    case (Some e)
    then have "effects (snd (deliver n d (l # ls) s)) = effects s @ [Deliver (lid l) n d]"
      by (simp add: Let_def)
    moreover have "\<forall>e\<in>set [Deliver (lid l) n d]. is_emit e" by simp
    ultimately show ?thesis by blast
  qed
qed

lemma deliver_safe:
  "\<forall>l\<in>set ls. consume l d = None \<Longrightarrow> fst (deliver n d ls s) = None"
  by (induction ls arbitrary: s) (simp_all add: Let_def)

lemma emit_frame:
  "lastCheck (snd (emit n d s)) = lastCheck s \<and> processLock (snd (emit n d s)) = processLock s
   \<and> cache (snd (emit n d s)) = cache s \<and> pollers (snd (emit n d s)) = pollers s
   \<and> listeners (snd (emit n d s)) = listeners s \<and> stopped (snd (emit n d s)) = stopped s
   \<and> watcher (snd (emit n d s)) = watcher s \<and> filePaths (snd (emit n d s)) = filePaths s"
  using deliver_frame [of n d _ "s\<lparr>effects := effects s @ [Emit n d]\<rparr>"]
  by (simp add: emit_def Let_def)

lemma emit_log:
  "\<exists>E. effects (snd (emit n d s)) = effects s @ E \<and> E \<noteq> [] \<and> (\<forall>e\<in>set E. is_emit e)"
proof -
  let ?s1 = "s\<lparr>effects := effects s @ [Emit n d]\<rparr>"
  let ?ls = "map snd (filter (\<lambda>(m, l). m = n) (listeners s))"
  show ?thesis
  proof (cases "n = ''error'' \<and> ?ls = []")
    case True
    have "emit n d s = (if n = ''error'' \<and> ?ls = [] then (Some UnhandledError, ?s1)
                        else deliver n d ?ls ?s1)"
      by (simp only: emit_def Let_def)
    also have "\<dots> = (Some UnhandledError, ?s1)" using True by (rule if_P)
    finally have "emit n d s = (Some UnhandledError, ?s1)" .
    then have "effects (snd (emit n d s)) = effects s @ [Emit n d]" by simp
    moreover have "[Emit n d] \<noteq> []" "\<forall>e\<in>set [Emit n d]. is_emit e" by simp_all
    ultimately show ?thesis by blast
  next
    case False
    from deliver_log [of n d ?ls ?s1] obtain E where
      E: "effects (snd (deliver n d ?ls ?s1)) = effects ?s1 @ E" "\<forall>e\<in>set E. is_emit e" by blast
    from False have "emit n d s = deliver n d ?ls ?s1" by (auto simp: emit_def Let_def)
    with E have "effects (snd (emit n d s)) = effects s @ (Emit n d # E)"
      and "Emit n d # E \<noteq> []" and "\<forall>e\<in>set (Emit n d # E). is_emit e"
      by simp_all
    then show ?thesis by blast
  qed
qed

lemma emit_safe:
  assumes "handled (listeners s) r"
  shows "fst (emit (eventType r) (data r) s) = None"
proof -
  let ?n = "eventType r"
  let ?ls = "map snd (filter (\<lambda>(m, l). m = ?n) (listeners s))"
  from assms have quiet: "\<forall>l\<in>set ?ls. consume l (data r) = None"
    by (auto simp: handled_def list_all_iff)
  from assms have "\<not> (?n = ''error'' \<and> ?ls = [])"
    by (auto simp: handled_def list_ex_iff filter_empty_conv)
  then have "emit ?n (data r) s
      = deliver ?n (data r) ?ls (s\<lparr>effects := effects s @ [Emit ?n (data r)]\<rparr>)"
    by (auto simp: emit_def Let_def)
  with quiet show ?thesis by (simp add: deliver_safe)
qed

lemma emit_results_frame:
  "lastCheck (snd (emit_results rs s)) = lastCheck s
   \<and> processLock (snd (emit_results rs s)) = processLock s
   \<and> cache (snd (emit_results rs s)) = cache s \<and> pollers (snd (emit_results rs s)) = pollers s
   \<and> listeners (snd (emit_results rs s)) = listeners s
   \<and> stopped (snd (emit_results rs s)) = stopped s
   \<and> watcher (snd (emit_results rs s)) = watcher s
   \<and> filePaths (snd (emit_results rs s)) = filePaths s"
proof (induction rs arbitrary: s)
  case Nil
  show ?case by simp
next
  case (Cons r rs)
  obtain x s1 where e: "emit (eventType r) (data r) s = (x, s1)"
    by (cases "emit (eventType r) (data r) s")
  with emit_frame [of "eventType r" "data r" s] Cons.IH [of s1]
  show ?case by (cases x) simp_all
qed

lemma emit_results_log:
  "\<exists>E. effects (snd (emit_results rs s)) = effects s @ E \<and> (\<forall>e\<in>set E. is_emit e)
       \<and> (fst (emit_results rs s) \<noteq> None \<longrightarrow> E \<noteq> [])"
proof (induction rs arbitrary: s)
  case Nil
  show ?case by simp
next
  case (Cons r rs)
  obtain x s1 where e: "emit (eventType r) (data r) s = (x, s1)"
    by (cases "emit (eventType r) (data r) s")
  from emit_log [of "eventType r" "data r" s] e obtain D where
    D: "effects s1 = effects s @ D" "D \<noteq> []" "\<forall>e\<in>set D. is_emit e" by auto
  show ?case
  proof (cases x)
    case (Some err)
    with e D show ?thesis by auto
  next
    case None
    from Cons.IH [of s1] obtain E where
      E: "effects (snd (emit_results rs s1)) = effects s1 @ E" "\<forall>e\<in>set E. is_emit e" by blast
    from None e have "emit_results (r # rs) s = emit_results rs s1" by simp
    with E D have "effects (snd (emit_results (r # rs) s)) = effects s @ (D @ E)"
      and "\<forall>e\<in>set (D @ E). is_emit e" and "D @ E \<noteq> []"
      by auto
    then show ?thesis by blast
  qed
qed

lemma emit_results_safe:
  "list_all (handled (listeners s)) rs \<Longrightarrow> fst (emit_results rs s) = None"
proof (induction rs arbitrary: s)
  case Nil
  show ?case by simp
next
  case (Cons r rs)
  obtain x s1 where e: "emit (eventType r) (data r) s = (x, s1)"
    by (cases "emit (eventType r) (data r) s")
  from Cons.prems have "handled (listeners s) r" by simp
  from emit_safe [OF this] e have x: "x = None" by simp
  from emit_frame [of "eventType r" "data r" s] e have "listeners s1 = listeners s" by simp
  with Cons.prems have "list_all (handled (listeners s1)) rs" by simp
  from Cons.IH [OF this] e x show ?case by simp
qed

text \<open>One round of the loop, for a poller that returns.\<close>

lemma poll_loop_step:
  assumes p: "poller after (cache s) = (Inr results, c)"
    and e: "(if em then emit_results results
                  (s\<lparr>cache := c, effects := effects s @ [PollerPoll i after]\<rparr>)
             else (None, s\<lparr>cache := c, effects := effects s @ [PollerPoll i after]\<rparr>))
            = (x, s2)"
  shows "poll_loop i (poller # rest) after em s
           = (case x of Some e \<Rightarrow> (Some e, s2) | None \<Rightarrow> poll_loop (Suc i) rest after em s2)"
    and "lastCheck s2 = lastCheck s \<and> processLock s2 = processLock s \<and> pollers s2 = pollers s
         \<and> listeners s2 = listeners s \<and> stopped s2 = stopped s \<and> watcher s2 = watcher s
         \<and> filePaths s2 = filePaths s \<and> cache s2 = c"
    and "\<exists>D. effects s2 = effects s @ PollerPoll i after # D \<and> (\<forall>e\<in>set D. is_emit e)
             \<and> (\<not> em \<longrightarrow> D = []) \<and> (x \<noteq> None \<longrightarrow> em)"
proof -
  let ?s1 = "s\<lparr>cache := c, effects := effects s @ [PollerPoll i after]\<rparr>"
  have "poll_loop i (poller # rest) after em s
      = (case (if em then emit_results results ?s1 else (None, ?s1)) of
           (Some e, s2) \<Rightarrow> (Some e, s2)
         | (None, s2) \<Rightarrow> poll_loop (Suc i) rest after em s2)"
    using p by (simp add: Let_def)
  also have "\<dots> = (case (x, s2) of
           (Some e, s2) \<Rightarrow> (Some e, s2)
         | (None, s2) \<Rightarrow> poll_loop (Suc i) rest after em s2)"
    by (simp only: e)
  finally show "poll_loop i (poller # rest) after em s
           = (case x of Some e \<Rightarrow> (Some e, s2) | None \<Rightarrow> poll_loop (Suc i) rest after em s2)"
    by (cases x) simp_all
  show "lastCheck s2 = lastCheck s \<and> processLock s2 = processLock s \<and> pollers s2 = pollers s
         \<and> listeners s2 = listeners s \<and> stopped s2 = stopped s \<and> watcher s2 = watcher s
         \<and> filePaths s2 = filePaths s \<and> cache s2 = c"
  proof (cases em)
    case True
    with e have "s2 = snd (emit_results results ?s1)" by simp
    with emit_results_frame [of results ?s1] show ?thesis by simp
  next
    case False
    with e have "s2 = ?s1" by simp
    then show ?thesis by simp
  qed
  show "\<exists>D. effects s2 = effects s @ PollerPoll i after # D \<and> (\<forall>e\<in>set D. is_emit e)
             \<and> (\<not> em \<longrightarrow> D = []) \<and> (x \<noteq> None \<longrightarrow> em)"
  proof (cases em)
    case True
    with e have "s2 = snd (emit_results results ?s1)" by simp
    with emit_results_log [of results ?s1] True show ?thesis by auto
  next
    case False
    with e have "s2 = ?s1" "x = None" by simp_all
    with False show ?thesis by simp
  qed
qed

lemma poll_loop_frame:
  "poll_loop i ps a em s = (r, s') \<Longrightarrow>
     lastCheck s' = lastCheck s \<and> processLock s' = processLock s \<and> pollers s' = pollers s
     \<and> listeners s' = listeners s \<and> stopped s' = stopped s \<and> watcher s' = watcher s
     \<and> filePaths s' = filePaths s"
proof (induction ps arbitrary: i s r s')
  case Nil
  then show ?case by simp
next
  case (Cons poller rest)
  obtain y c where p: "poller a (cache s) = (y, c)" by (cases "poller a (cache s)")
  show ?case
  proof (cases y)
    case (Inl e)
    with p Cons.prems show ?thesis by auto
  next
    case (Inr results)
    let ?s1 = "s\<lparr>cache := c, effects := effects s @ [PollerPoll i a]\<rparr>"
    obtain x s2 where e: "(if em then emit_results results ?s1 else (None, ?s1)) = (x, s2)"
      by (cases "if em then emit_results results ?s1 else (None, ?s1)")
    note step1 = poll_loop_step(1) [where poller = poller and after = a and s = s and rest = rest,
        OF p [unfolded Inr] e]
      and step2 = poll_loop_step(2) [where poller = poller and after = a and s = s, OF p [unfolded Inr] e]
      and step3 = poll_loop_step(3) [where poller = poller and after = a and s = s, OF p [unfolded Inr] e]
    show ?thesis
    proof (cases x)
      case (Some err)
      with step1 Cons.prems have "s' = s2" by simp
      with step2 show ?thesis by simp
    next
      case None
      with step1 Cons.prems have "poll_loop (Suc i) rest a em s2 = (r, s')" by simp
      from Cons.IH [OF this] step2 show ?thesis by simp
    qed
  qed
qed

lemma poll_loop_log:
  "poll_loop i ps a em s = (r, s') \<Longrightarrow>
     \<exists>E n. effects s' = effects s @ E
       \<and> polls_of E = map (\<lambda>k. PollerPoll k a) [i..<i + n]
       \<and> n \<le> length ps
       \<and> (\<forall>e\<in>set E. is_poll e \<or> is_emit e)
       \<and> (\<not> em \<longrightarrow> emits_of E = [])
       \<and> (case r of None \<Rightarrow> n = length ps | Some e \<Rightarrow> 0 < n)"
proof (induction ps arbitrary: i s r s')
  case Nil
  then have "effects s' = effects s @ []" "r = None" by auto
  then show ?case by (intro exI [of _ "[]"] exI [of _ 0]) (simp add: polls_of_def emits_of_def)
next
  case (Cons poller rest)
  obtain y c where p: "poller a (cache s) = (y, c)" by (cases "poller a (cache s)")
  show ?case
  proof (cases y)
    case (Inl e)
    with p Cons.prems have "effects s' = effects s @ [PollerPoll i a]" "r = Some e"
      by auto
    then show ?thesis
      by (intro exI [of _ "[PollerPoll i a]"] exI [of _ 1])
         (auto simp: polls_of_def emits_of_def)
  next
    case (Inr results)
    let ?s1 = "s\<lparr>cache := c, effects := effects s @ [PollerPoll i a]\<rparr>"
    obtain x s2 where e: "(if em then emit_results results ?s1 else (None, ?s1)) = (x, s2)"
      by (cases "if em then emit_results results ?s1 else (None, ?s1)")
    note step1 = poll_loop_step(1) [where poller = poller and after = a and s = s and rest = rest,
        OF p [unfolded Inr] e]
      and step2 = poll_loop_step(2) [where poller = poller and after = a and s = s, OF p [unfolded Inr] e]
      and step3 = poll_loop_step(3) [where poller = poller and after = a and s = s, OF p [unfolded Inr] e]
    from step3 obtain D where D: "effects s2 = effects s @ PollerPoll i a # D"
      "\<forall>e\<in>set D. is_emit e" "\<not> em \<longrightarrow> D = []" by blast
    have pD: "polls_of D = []"
      using D(2) by (auto simp: polls_of_def filter_empty_conv elim!: is_emit.elims)
    show ?thesis
    proof (cases x)
      case (Some err)
      with step1 Cons.prems have "s' = s2" "r = Some err" by simp_all
      with D pD show ?thesis
        by (intro exI [of _ "PollerPoll i a # D"] exI [of _ 1])
           (auto simp: polls_of_def emits_of_def)
    next
      case None
      with step1 Cons.prems have run: "poll_loop (Suc i) rest a em s2 = (r, s')" by simp
      from Cons.IH [OF run] obtain E n where E: "effects s' = effects s2 @ E"
        "polls_of E = map (\<lambda>k. PollerPoll k a) [Suc i..<Suc i + n]"
        "n \<le> length rest" "\<forall>e\<in>set E. is_poll e \<or> is_emit e"
        "\<not> em \<longrightarrow> emits_of E = []"
        "case r of None \<Rightarrow> n = length rest | Some e \<Rightarrow> 0 < n"
        by blast
      let ?E = "PollerPoll i a # D @ E"
      have 1: "effects s' = effects s @ ?E" using E(1) D(1) by simp
      have 2: "polls_of ?E = map (\<lambda>k. PollerPoll k a) [i..<i + Suc n]"
        using E(2) pD by (simp add: polls_of_def upt_conv_Cons)
      have 3: "Suc n \<le> length (poller # rest)" using E(3) by simp
      have 4: "\<forall>e\<in>set ?E. is_poll e \<or> is_emit e" using E(4) D(2) by auto
      have 5: "\<not> em \<longrightarrow> emits_of ?E = []" using E(5) D(3) by (simp add: emits_of_def)
      have 6: "case r of None \<Rightarrow> Suc n = length (poller # rest) | Some e \<Rightarrow> 0 < Suc n"
        using E(6) by (cases r) auto
      from 1 2 3 4 5 6 show ?thesis by blast
    qed
  qed
qed



text \<open>
  Pollers that return, with results that the listeners take: the loop goes through all
  of them, and each finds the cache its predecessor left.
\<close>

lemma poll_loop_prefix:
  assumes "\<forall>q\<in>set pre. never_throws a q \<and> (em \<longrightarrow> emits_safely (listeners s) a q)"
  shows "\<exists>s1 E. poll_loop i (pre @ rest) a em s = poll_loop (i + length pre) rest a em s1
           \<and> cache s1 = cache_before pre a (cache s)
           \<and> effects s1 = effects s @ E
           \<and> polls_of E = map (\<lambda>k. PollerPoll k a) [i..<i + length pre]
           \<and> (\<forall>e\<in>set E. is_poll e \<or> is_emit e)
           \<and> listeners s1 = listeners s"
  using assms
proof (induction pre arbitrary: i s)
  case Nil
  show ?case by (intro exI [of _ s] exI [of _ "[]"]) (simp add: polls_of_def)
next
  case (Cons poller pre)
  obtain y c where p: "poller a (cache s) = (y, c)" by (cases "poller a (cache s)")
  from Cons.prems have "\<not> isl (fst (poller a (cache s)))" by (simp add: never_throws_def)
  with p obtain results where y: "y = Inr results" by (cases y) auto
  let ?s1 = "s\<lparr>cache := c, effects := effects s @ [PollerPoll i a]\<rparr>"
  obtain x s2 where e: "(if em then emit_results results ?s1 else (None, ?s1)) = (x, s2)"
    by (cases "if em then emit_results results ?s1 else (None, ?s1)")
  note step1 = poll_loop_step(1) [where poller = poller and after = a and s = s and rest = "pre @ rest",
        OF p [unfolded y] e]
      and step2 = poll_loop_step(2) [where poller = poller and after = a and s = s, OF p [unfolded y] e]
      and step3 = poll_loop_step(3) [where poller = poller and after = a and s = s, OF p [unfolded y] e]
  have x: "x = None"
  proof (cases em)
    case True
    with Cons.prems have "emits_safely (listeners s) a poller" by simp
    with p y have "list_all (handled (listeners ?s1)) results"
      by (auto simp: emits_safely_def dest!: spec [of _ "cache s"])
    from emit_results_safe [OF this] e True show ?thesis by simp
  next
    case False
    with e show ?thesis by simp
  qed
  from step3 obtain D where D: "effects s2 = effects s @ PollerPoll i a # D"
    "\<forall>e\<in>set D. is_emit e" by blast
  have pD: "polls_of D = []"
    using D(2) by (auto simp: polls_of_def filter_empty_conv elim!: is_emit.elims)
  from step2 Cons.prems
  have "\<forall>q\<in>set pre. never_throws a q \<and> (em \<longrightarrow> emits_safely (listeners s2) a q)" by simp
  from Cons.IH [OF this, of "Suc i"] obtain s3 E where
    E: "poll_loop (Suc i) (pre @ rest) a em s2 = poll_loop (Suc i + length pre) rest a em s3"
      "cache s3 = cache_before pre a (cache s2)" "effects s3 = effects s2 @ E"
      "polls_of E = map (\<lambda>k. PollerPoll k a) [Suc i..<Suc i + length pre]"
      "\<forall>e\<in>set E. is_poll e \<or> is_emit e" "listeners s3 = listeners s2"
    by blast
  let ?E = "PollerPoll i a # D @ E"
  have 1: "poll_loop i ((poller # pre) @ rest) a em s
      = poll_loop (i + length (poller # pre)) rest a em s3"
    using step1 x E(1) by simp
  have 2: "cache s3 = cache_before (poller # pre) a (cache s)" using E(2) step2 p by simp
  have 3: "effects s3 = effects s @ ?E" using E(3) D(1) by simp
  have lt: "i < i + length (poller # pre)" by simp
  have eq: "i + length (poller # pre) = Suc i + length pre" by simp
  have upt: "[i..<i + length (poller # pre)] = i # [Suc i..<Suc i + length pre]"
    using upt_conv_Cons [OF lt] unfolding eq .
  have "polls_of ?E = PollerPoll i a # polls_of E" using pD by (simp add: polls_of_def)
  then have 4: "polls_of ?E = map (\<lambda>k. PollerPoll k a) [i..<i + length (poller # pre)]"
    unfolding upt E(4) by simp
  have 5: "\<forall>e\<in>set ?E. is_poll e \<or> is_emit e" using E(5) D(2) by auto
  have 6: "listeners s3 = listeners s" using E(6) step2 by simp
  from 1 2 3 4 5 6 show ?case by blast
qed

lemma poll_loop_returns:
  assumes "\<forall>q\<in>set ps. never_throws a q \<and> (em \<longrightarrow> emits_safely (listeners s) a q)"
  shows "fst (poll_loop i ps a em s) = None"
  using poll_loop_prefix [OF assms, of i "[]"] by auto


section \<open>The change handler: one cycle\<close>

lemma poll_log:
  assumes "poll a em s = (r, s')"
  shows "\<exists>E n. effects s' = effects s @ E
       \<and> polls_of E = map (\<lambda>k. PollerPoll k a) [0..<n]
       \<and> n \<le> length (pollers s)
       \<and> (\<forall>e\<in>set E. is_poll e \<or> is_emit e)
       \<and> (\<not> em \<longrightarrow> emits_of E = [])
       \<and> (case r of None \<Rightarrow> n = length (pollers s) | Some e \<Rightarrow> 0 < n)"
  using poll_loop_log [OF assms [unfolded poll_def]] by simp

lemma poll_frame:
  assumes "poll a em s = (r, s')"
  shows "lastCheck s' = lastCheck s \<and> processLock s' = processLock s \<and> pollers s' = pollers s
     \<and> listeners s' = listeners s \<and> stopped s' = stopped s \<and> watcher s' = watcher s
     \<and> filePaths s' = filePaths s"
  using poll_loop_frame [OF assms [unfolded poll_def]] .

lemma poll_returns:
  "\<forall>p\<in>set (pollers s). never_throws a p \<and> (em \<longrightarrow> emits_safely (listeners s) a p)
     \<Longrightarrow> fst (poll a em s) = None"
  unfolding poll_def by (rule poll_loop_returns)


text \<open>What the body after the acquire does with an event that is newer than the watermark.\<close>

lemma locked_fresh:
  assumes fresh: "lastCheck s < mtimeMs (currentStat ev)"
    and run: "handleChangeEvent_locked trim k ev s = (r, s')"
  shows "\<exists>E n. polls_of E = map (\<lambda>i. PollerPoll i (mtimeMs (prevStat ev) - 30000)) [0..<n]
      \<and> n \<le> length (pollers s)
      \<and> (\<forall>e\<in>set E. is_poll e \<or> is_emit e)
      \<and> lastCheck s' = mtimeMs (currentStat ev)
      \<and> E = added (s\<lparr>lastCheck := mtimeMs (currentStat ev),
                     effects := effects s @ [SetLastCheck (mtimeMs (currentStat ev))]\<rparr>)
                  (snd (poll (mtimeMs (prevStat ev) - 30000) True
                     (s\<lparr>lastCheck := mtimeMs (currentStat ev),
                        effects := effects s @ [SetLastCheck (mtimeMs (currentStat ev))]\<rparr>)))
      \<and> (case r of
            Threw e \<Rightarrow>
              effects s' = effects s @ SetLastCheck (mtimeMs (currentStat ev)) # E
              \<and> 0 < n
              \<and> processLock s' = arrive k (processLock s)
          | Returned \<Rightarrow>
              n = length (pollers s)
              \<and> effects s' = effects s @ SetLastCheck (mtimeMs (currentStat ev)) # E @
                    TrimCaches #
                    (if 0 < waiting (arrive k (processLock s)) then [WaitMs 100] else []) @
                    [Released]
              \<and> processLock s' = release (arrive k (processLock s))
              \<and> cache s' = trim (cache (snd (poll (mtimeMs (prevStat ev) - 30000) True
                     (s\<lparr>lastCheck := mtimeMs (currentStat ev),
                        effects := effects s @ [SetLastCheck (mtimeMs (currentStat ev))]\<rparr>))))
          | Suspended \<Rightarrow> False)"
proof -
  let ?cur = "mtimeMs (currentStat ev)"
  let ?after = "mtimeMs (prevStat ev) - 30000"
  let ?s1 = "s\<lparr>lastCheck := ?cur, effects := effects s @ [SetLastCheck ?cur]\<rparr>"
  obtain x s2 where p: "poll ?after True ?s1 = (x, s2)" by (cases "poll ?after True ?s1")
  from poll_log [OF p] obtain E n where E: "effects s2 = effects ?s1 @ E"
    "polls_of E = map (\<lambda>k. PollerPoll k ?after) [0..<n]" "n \<le> length (pollers ?s1)"
    "\<forall>e\<in>set E. is_poll e \<or> is_emit e"
    "case x of None \<Rightarrow> n = length (pollers ?s1) | Some e \<Rightarrow> 0 < n"
    by blast
  from poll_frame [OF p] have fr: "lastCheck s2 = ?cur" "processLock s2 = processLock s" by simp_all
  have add: "E = added ?s1 (snd (poll ?after True ?s1))" using E(1) p by (simp add: added_def)
  show ?thesis
  proof (cases x)
    case None
    with run fresh p have r: "r = Returned"
      and s': "s' = (let s3 = s2\<lparr>processLock := arrive k (processLock s2)\<rparr>;
                     s4 = s3\<lparr>cache := trim (cache s3), effects := effects s3 @ [TrimCaches]\<rparr>;
                     s5 = (if 0 < nrWaiting (processLock s4)
                           then s4\<lparr>effects := effects s4 @ [WaitMs 100]\<rparr> else s4)
                 in s5\<lparr>processLock := release (processLock s5),
                        effects := effects s5 @ [Released]\<rparr>)"
      by (simp_all add: handleChangeEvent_locked_def Let_def)
    from s' fr E(1) have "lastCheck s' = ?cur"
      and "effects s' = effects s @ SetLastCheck ?cur # E @ TrimCaches #
            (if 0 < waiting (arrive k (processLock s)) then [WaitMs 100] else []) @ [Released]"
      and "processLock s' = release (arrive k (processLock s))"
      and "cache s' = trim (cache (snd (poll ?after True ?s1)))"
      using p by (simp_all add: Let_def nrWaiting_def)
    with r None E add show ?thesis by (intro exI [of _ E] exI [of _ n]) simp
  next
    case (Some e)
    with run fresh p have r: "r = Threw e"
      and s': "s' = s2\<lparr>processLock := arrive k (processLock s2)\<rparr>"
      by (simp_all add: handleChangeEvent_locked_def Let_def)
    from s' fr E(1) have "lastCheck s' = ?cur"
      and "effects s' = effects s @ SetLastCheck ?cur # E"
      and "processLock s' = arrive k (processLock s)"
      by simp_all
    with r Some E add show ?thesis by (intro exI [of _ E] exI [of _ n]) simp
  qed
qed

lemma locked_stale:
  assumes "mtimeMs (currentStat ev) \<le> lastCheck s"
  shows "handleChangeEvent_locked trim k ev s =
           (Returned, s\<lparr>processLock := release (processLock s), effects := effects s @ [Released]\<rparr>)"
  using assms by (simp add: handleChangeEvent_locked_def)

lemma acquire_free: "0 < free l \<Longrightarrow> acquire l = (True, l\<lparr>free := free l - 1\<rparr>)"
  by (simp add: acquire_def)

lemma handleChangeEvent_free:
  "0 < free (processLock s) \<Longrightarrow>
     handleChangeEvent trim k ev s =
       handleChangeEvent_locked trim k ev
         (s\<lparr>processLock := (processLock s)\<lparr>free := free (processLock s) - 1\<rparr>,
            effects := effects s @ [Acquired]\<rparr>)"
  by (simp add: handleChangeEvent_def acquire_free)

lemma handleChangeEvent_busy:
  "free (processLock s) = 0 \<Longrightarrow>
     handleChangeEvent trim k ev s =
       (Suspended, s\<lparr>processLock := (processLock s)\<lparr>waiting := waiting (processLock s) + 1\<rparr>,
                     effects := effects s @ [Enqueued]\<rparr>)"
  by (simp add: handleChangeEvent_def acquire_def)

lemma locked_returns:
  assumes "\<forall>p\<in>set (pollers s). never_throws (mtimeMs (prevStat ev) - 30000) p
             \<and> emits_safely (listeners s) (mtimeMs (prevStat ev) - 30000) p"
  shows "fst (handleChangeEvent_locked trim k ev s) = Returned"
proof (cases "lastCheck s < mtimeMs (currentStat ev)")
  case True
  let ?s1 = "s\<lparr>lastCheck := mtimeMs (currentStat ev),
                effects := effects s @ [SetLastCheck (mtimeMs (currentStat ev))]\<rparr>"
  have "fst (poll (mtimeMs (prevStat ev) - 30000) True ?s1) = None"
    using assms by (intro poll_returns) simp
  then obtain s2 where "poll (mtimeMs (prevStat ev) - 30000) True ?s1 = (None, s2)"
    by (cases "poll (mtimeMs (prevStat ev) - 30000) True ?s1") auto
  with True show ?thesis by (simp add: handleChangeEvent_locked_def Let_def)
next
  case False
  then show ?thesis by (simp add: handleChangeEvent_locked_def)
qed





lemma locked_frame:
  assumes run: "handleChangeEvent_locked trim k ev s = (r, s')"
  shows "watcher s' = watcher s \<and> stopped s' = stopped s \<and> pollers s' = pollers s
       \<and> listeners s' = listeners s \<and> filePaths s' = filePaths s"
proof (cases "lastCheck s < mtimeMs (currentStat ev)")
  case True
  let ?s1 = "s\<lparr>lastCheck := mtimeMs (currentStat ev),
                effects := effects s @ [SetLastCheck (mtimeMs (currentStat ev))]\<rparr>"
  obtain x s2 where p: "poll (mtimeMs (prevStat ev) - 30000) True ?s1 = (x, s2)"
    by (cases "poll (mtimeMs (prevStat ev) - 30000) True ?s1")
  from poll_frame [OF p] have fr: "watcher s2 = watcher s" "stopped s2 = stopped s"
    "pollers s2 = pollers s" "listeners s2 = listeners s" "filePaths s2 = filePaths s"
    by simp_all
  from run True p fr show ?thesis
    by (cases x) (auto simp: handleChangeEvent_locked_def Let_def split: if_splits)
next
  case False
  with run show ?thesis by (auto simp: handleChangeEvent_locked_def)
qed








subsection \<open>The earliest modification time and the start\<close>

lemma Min_insert_min:
  assumes "finite S"
  shows "Min (insert (min m e) S) = Min (insert e (insert m S))"
proof (cases "S = {}")
  case True
  then show ?thesis by (simp add: min.commute)
next
  case False
  with assms show ?thesis by (simp add: min.assoc min.commute min.left_commute)
qed

lemma earliest_loop_min:
  "set ps \<subseteq> dom fs \<Longrightarrow>
     earliest_loop fs ps e = Inr (Min (insert e ((\<lambda>p. the (fs p)) ` set ps)))"
proof (induction ps arbitrary: e)
  case Nil
  show ?case by simp
next
  case (Cons p ps)
  then obtain m where m: "fs p = Some m" by auto
  have "(if m < e then m else e) = min m e" by (simp add: min_def)
  with Cons m show ?case by (simp add: Min_insert_min)
qed

lemma earliest_loop_le: "earliest_loop fs ps e = Inr d \<Longrightarrow> d \<le> e"
proof (induction ps arbitrary: e)
  case Nil
  then show ?case by simp
next
  case (Cons p ps)
  then show ?case by (fastforce split: option.splits if_splits)
qed

lemma earliest_loop_throws:
  "\<not> set ps \<subseteq> dom fs \<Longrightarrow> \<exists>p. earliest_loop fs ps e = Inl (StatError p)"
proof (induction ps arbitrary: e)
  case Nil
  then show ?case by simp
next
  case (Cons p ps)
  then show ?case by (cases "fs p") auto
qed

lemma polls_only:
  assumes "\<forall>e\<in>set E. is_poll e \<or> is_emit e" and "emits_of E = []"
  shows "polls_of E = E"
  using assms by (auto simp: polls_of_def emits_of_def filter_empty_conv filter_id_conv)

text \<open>The log of \<^verbatim>\<open>start\<close>, whatever its outcome.\<close>

lemma start_log:
  assumes run: "start fs now s = (r, s')"
  shows "lastCheck s' = 0 \<and>
    (case getEarliestModifiedDate fs now s of
       Inl e \<Rightarrow> r = Threw e \<and> added s s' = [SetLastCheck 0] \<and> watcher s' = watcher s
     | Inr d \<Rightarrow>
         (\<exists>n. n \<le> length (pollers s) \<and>
            (case r of
               Returned \<Rightarrow> n = length (pollers s)
                 \<and> added s s' = SetLastCheck 0 # map (\<lambda>i. PollerPoll i (d - 60000)) [0..<n] @ [WatcherStart]
                 \<and> watcher s' = Some \<lparr>watchedPaths = filePaths s,
                       subscriptions = [''change'', ''error''], running = True\<rparr>
             | Threw e \<Rightarrow> 0 < n
                 \<and> added s s' = SetLastCheck 0 # map (\<lambda>i. PollerPoll i (d - 60000)) [0..<n]
                 \<and> watcher s' = watcher s
             | Suspended \<Rightarrow> False)))"
proof -
  let ?s1 = "s\<lparr>lastCheck := 0, stopped := False, effects := effects s @ [SetLastCheck 0]\<rparr>"
  have g: "getEarliestModifiedDate fs now ?s1 = getEarliestModifiedDate fs now s"
    by (simp add: getEarliestModifiedDate_def)
  show ?thesis
  proof (cases "getEarliestModifiedDate fs now s")
    case (Inl e)
    with run g show ?thesis by (auto simp: start_def Let_def added_def)
  next
    case (Inr d)
    obtain x s2 where p: "poll (d - 60000) False ?s1 = (x, s2)"
      by (cases "poll (d - 60000) False ?s1")
    from poll_log [OF p] obtain E n where E: "effects s2 = effects ?s1 @ E"
      "polls_of E = map (\<lambda>k. PollerPoll k (d - 60000)) [0..<n]" "n \<le> length (pollers s)"
      "\<forall>e\<in>set E. is_poll e \<or> is_emit e" "emits_of E = []"
      "case x of None \<Rightarrow> n = length (pollers s) | Some e \<Rightarrow> 0 < n"
      by (cases x) auto
    from polls_only [OF E(4,5)] E(2) have EE: "E = map (\<lambda>k. PollerPoll k (d - 60000)) [0..<n]"
      by simp
    from poll_frame [OF p] have fr: "lastCheck s2 = 0" "watcher s2 = watcher s"
      "filePaths s2 = filePaths s" by simp_all
    show ?thesis
    proof (cases x)
      case None
      with run g Inr p have "r = Returned"
        and "s' = s2\<lparr>watcher := Some \<lparr>watchedPaths = filePaths s2,
                           subscriptions = [''change'', ''error''], running = True\<rparr>,
                      effects := effects s2 @ [WatcherStart]\<rparr>"
        by (simp_all add: start_def Let_def)
      with fr E(1,3,6) EE None Inr show ?thesis
        by (auto simp: added_def intro!: exI [of _ n])
    next
      case (Some e)
      with run g Inr p have "r = Threw e" and "s' = s2" by (simp_all add: start_def Let_def)
      with fr E(1,3,6) EE Some Inr show ?thesis
        by (auto simp: added_def intro!: exI [of _ n])
    qed
  qed
qed


section \<open>A burst of invocations of the debounce decorator\<close>

lemma invoke_all_burst:
  assumes "calls \<noteq> []"
    and "\<forall>c\<in>set calls. \<forall>c'\<in>set calls. fst c' < fst c + wait"
    and "case pending g of None \<Rightarrow> True | Some (a, due) \<Rightarrow> \<forall>c\<in>set calls. fst c < due"
  shows "invoke_all wait calls g
           = g\<lparr>pending := Some (snd (last calls), fst (last calls) + wait)\<rparr>"
  using assms
proof (induction calls arbitrary: g)
  case Nil
  then show ?case by simp
next
  case (Cons c calls)
  obtain t a where c: "c = (t, a)" by (cases c)
  have quiet: "elapse t g = g"
    using Cons.prems(3) c by (auto simp: elapse_def split: option.splits)
  let ?g = "invoke wait t a g"
  have g': "?g = g\<lparr>pending := Some (a, t + wait)\<rparr>" by (simp add: invoke_def quiet)
  show ?case
  proof (cases "calls = []")
    case True
    with c g' show ?thesis by simp
  next
    case False
    have 2: "\<forall>c\<in>set calls. \<forall>c'\<in>set calls. fst c' < fst c + wait" using Cons.prems(2) by simp
    have 3: "case pending ?g of None \<Rightarrow> True | Some (a, due) \<Rightarrow> \<forall>c\<in>set calls. fst c < due"
      using Cons.prems(2) c g' by auto
    from Cons.IH [OF False 2 3] c g' False show ?thesis by simp
  qed
qed

lemma sorted_le_last: "sorted xs \<Longrightarrow> x \<in> set xs \<Longrightarrow> x \<le> last (xs :: int list)"
  by (induction xs) auto

lemma sorted_hd_le: "sorted xs \<Longrightarrow> x \<in> set xs \<Longrightarrow> hd xs \<le> (x :: int)"
  by (cases xs) auto

lemma burst_pairwise:
  assumes "calls \<noteq> []" and "sorted (map fst calls)"
    and "fst (last calls) - fst (hd calls) < wait"
  shows "\<forall>c\<in>set calls. \<forall>c'\<in>set calls. fst c' < fst c + (wait :: int)"
proof (intro ballI)
  fix c c' assume c: "c \<in> set calls" and c': "c' \<in> set calls"
  let ?ts = "map fst calls"
  have ne: "?ts \<noteq> []" using assms(1) by simp
  have "fst c \<in> set ?ts" "fst c' \<in> set ?ts" using c c' by simp_all
  have lo: "hd ?ts \<le> fst c"
    using assms(2) \<open>fst c \<in> set ?ts\<close> by (rule sorted_hd_le)
  have hi: "fst c' \<le> last ?ts"
    using assms(2) \<open>fst c' \<in> set ?ts\<close> by (rule sorted_le_last)
  have "hd ?ts = fst (hd calls)" "last ?ts = fst (last calls)"
    using assms(1) by (simp_all add: hd_map last_map)
  with lo hi assms(3) show "fst c' < fst c + wait" by simp
qed

section \<open>The change handler\<close>




text \<open>A listener that throws ends the cycle as a poller that throws does: the caches are not trimmed and the lock is not released.\<close>

lemma consumer_throws_example:
  "handleChangeEvent ex_trimCaches 0 ex_event ex_listener_throwing_consumer
     = (Threw (ConsumerError ''row-a''), snd (handleChangeEvent ex_trimCaches 0 ex_event
          ex_listener_throwing_consumer))
   \<and> added ex_listener_throwing_consumer
        (snd (handleChangeEvent ex_trimCaches 0 ex_event ex_listener_throwing_consumer))
       = [Acquired, SetLastCheck 200000, PollerPoll 0 70000, Emit ''new-message'' ''row-a'',
          Deliver 1 ''new-message'' ''row-a'', Deliver 2 ''new-message'' ''row-a'']
   \<and> processLock (snd (handleChangeEvent ex_trimCaches 0 ex_event ex_listener_throwing_consumer))
       = \<lparr>free = 0, waiting = 0\<rparr>"
  by (simp add: ex_defs run_defs)




text \<open>
  Claim C3. For a change event whose \<^verbatim>\<open>currentStat.mtimeMs\<close> is at most the watermark,
  \<^verbatim>\<open>handleChangeEvent\<close> calls no poller and leaves the watermark (and the cache) as they
  were, both when it takes the lock at once and when it continues after having queued.
\<close>

theorem handleChangeEvent_stale:
  assumes stale: "mtimeMs (currentStat ev) \<le> lastCheck s"
  shows "lastCheck (snd (handleChangeEvent trimCaches k ev s)) = lastCheck s
       \<and> polls_of (added s (snd (handleChangeEvent trimCaches k ev s))) = []
       \<and> cache (snd (handleChangeEvent trimCaches k ev s)) = cache s
       \<and> lastCheck (snd (handleChangeEvent_resume trimCaches k ev s)) = lastCheck s
       \<and> polls_of (added s (snd (handleChangeEvent_resume trimCaches k ev s))) = []
       \<and> cache (snd (handleChangeEvent_resume trimCaches k ev s)) = cache s"
proof -
  have resume: "lastCheck (snd (handleChangeEvent_resume trimCaches k ev s)) = lastCheck s
       \<and> polls_of (added s (snd (handleChangeEvent_resume trimCaches k ev s))) = []
       \<and> cache (snd (handleChangeEvent_resume trimCaches k ev s)) = cache s"
    using stale by (simp add: handleChangeEvent_resume_def locked_stale added_def polls_of_def)
  have "lastCheck (snd (handleChangeEvent trimCaches k ev s)) = lastCheck s
       \<and> polls_of (added s (snd (handleChangeEvent trimCaches k ev s))) = []
       \<and> cache (snd (handleChangeEvent trimCaches k ev s)) = cache s"
  proof (cases "0 < free (processLock s)")
    case True
    with stale show ?thesis
      by (simp add: handleChangeEvent_free locked_stale added_def polls_of_def)
  next
    case False
    then show ?thesis by (simp add: handleChangeEvent_busy added_def polls_of_def)
  qed
  with resume show ?thesis by simp
qed

text \<open>An instance: the same event a second time, once the watermark has reached its current time.\<close>

theorem handleChangeEvent_stale_witness:
  "mtimeMs (currentStat ex_event) \<le> lastCheck ex_polled
   \<and> lastCheck (snd (handleChangeEvent ex_trimCaches 0 ex_event ex_polled)) = 200000
   \<and> added ex_polled (snd (handleChangeEvent ex_trimCaches 0 ex_event ex_polled))
       = [Acquired, Released]"
proof -
  have 1: "mtimeMs (currentStat ex_event) \<le> lastCheck ex_polled"
    by (simp add: ex_polled_def ex_defs run_defs)
  have 2: "lastCheck ex_polled = 200000" by (simp add: ex_polled_def ex_defs run_defs)
  have 3: "added ex_polled (snd (handleChangeEvent ex_trimCaches 0 ex_event ex_polled))
       = [Acquired, Released]"
    by (simp add: ex_polled_def ex_defs run_defs)
  from handleChangeEvent_stale [OF 1, of ex_trimCaches 0] 1 2 3 show ?thesis by simp
qed

section \<open>The start\<close>

text \<open>
  Claim C10. When every watched path can be read, \<^verbatim>\<open>getEarliestModifiedDate\<close> returns
  the minimum of the current time and the modification times of the watched paths. It
  is never later than the current time, it is the current time when no path is watched,
  and every poller call of \<^verbatim>\<open>start\<close> is given that date minus 60000 ms as
  \<^verbatim>\<open>after\<close>, which is at least 60 seconds before the current time.
\<close>

theorem getEarliestModifiedDate_min:
  assumes paths: "set (filePaths s) \<subseteq> dom fs"
  shows "\<exists>d. getEarliestModifiedDate fs now s = Inr d
           \<and> d = Min (insert now ((\<lambda>p. the (fs p)) ` set (filePaths s)))
           \<and> d \<le> now
           \<and> (filePaths s = [] \<longrightarrow> d = now)
           \<and> d - 60000 \<le> now - 60000
           \<and> (\<exists>n. polls_of (added s (snd (start fs now s)))
                  = map (\<lambda>i. PollerPoll i (d - 60000)) [0..<n])"
proof -
  let ?d = "Min (insert now ((\<lambda>p. the (fs p)) ` set (filePaths s)))"
  have d: "getEarliestModifiedDate fs now s = Inr ?d"
    using paths by (simp add: getEarliestModifiedDate_def earliest_loop_min)
  then have le: "?d \<le> now" by (simp add: getEarliestModifiedDate_def earliest_loop_le)
  have empty: "filePaths s = [] \<longrightarrow> ?d = now" by simp
  obtain r s' where run: "start fs now s = (r, s')" by (cases "start fs now s")
  from start_log [OF run] d obtain n where
    "case r of
       Returned \<Rightarrow> added s s' = SetLastCheck 0 # map (\<lambda>i. PollerPoll i (?d - 60000)) [0..<n] @ [WatcherStart]
     | Threw e \<Rightarrow> added s s' = SetLastCheck 0 # map (\<lambda>i. PollerPoll i (?d - 60000)) [0..<n]
     | Suspended \<Rightarrow> False"
    by (cases r) auto
  then have "polls_of (added s s') = map (\<lambda>i. PollerPoll i (?d - 60000)) [0..<n]"
    by (cases r) (simp_all add: polls_of_def filter_id_conv)
  with d le empty run show ?thesis by auto
qed

text \<open>An instance: one watched path modified at 150000, the clock at 900000.\<close>

theorem getEarliestModifiedDate_min_witness:
  "getEarliestModifiedDate ex_fs 900000 ex_listener = Inr 150000
   \<and> added ex_listener (snd (start ex_fs 900000 ex_listener))
       = [SetLastCheck 0, PollerPoll 0 90000, WatcherStart]"
proof -
  have 1: "set (filePaths ex_listener) \<subseteq> dom ex_fs" by (simp add: ex_defs)
  from getEarliestModifiedDate_min [OF 1, of 900000]
  have "getEarliestModifiedDate ex_fs 900000 ex_listener
      = Inr (Min (insert 900000 ((\<lambda>p. the (ex_fs p)) ` set (filePaths ex_listener))))"
    by auto
  moreover have "Min (insert 900000 ((\<lambda>p. the (ex_fs p)) ` set (filePaths ex_listener))) = 150000"
    by (simp add: ex_defs)
  moreover have "added ex_listener (snd (start ex_fs 900000 ex_listener))
       = [SetLastCheck 0, PollerPoll 0 90000, WatcherStart]"
    by (simp add: ex_defs run_defs)
  ultimately show ?thesis by simp
qed




section \<open>The watermark\<close>


section \<open>The settle delay and the stop\<close>




text \<open>
  Claim C6, as amended. \<^verbatim>\<open>stop\<close> sets the stopped flag and removes the listeners of
  the coordinator's own emitter; it leaves the watcher and its subscriptions, the lock,
  the watermark, the pollers and the cache as they were. \<^verbatim>\<open>handleChangeEvent\<close> does not
  read the flag: run after \<^verbatim>\<open>stop\<close> with a newer event, it still sets the watermark
  and polls; and when no poller throws and no result is an event named \<^verbatim>\<open>error\<close>
  (which, with no listener left, \<^verbatim>\<open>emit\<close> would throw on), it calls every poller and
  returns.
\<close>

theorem stop_leaves_watcher:
  assumes fresh: "lastCheck s < mtimeMs (currentStat ev)"
    and lock: "0 < free (processLock s)"
    and run: "handleChangeEvent trimCaches k ev (stop s) = (r, s')"
  shows "stopped (stop s) \<and> listeners (stop s) = [] \<and> watcher (stop s) = watcher s
       \<and> processLock (stop s) = processLock s \<and> lastCheck (stop s) = lastCheck s
       \<and> pollers (stop s) = pollers s \<and> cache (stop s) = cache s
       \<and> effects (stop s) = effects s
       \<and> lastCheck s' = mtimeMs (currentStat ev)
       \<and> watcher s' = watcher s
       \<and> (\<exists>n. polls_of (added (stop s) s')
                  = map (\<lambda>i. PollerPoll i (mtimeMs (prevStat ev) - 30000)) [0..<n]
              \<and> n \<le> length (pollers s) \<and> (pollers s \<noteq> [] \<longrightarrow> 0 < n))
       \<and> ((\<forall>p\<in>set (pollers s). never_throws (mtimeMs (prevStat ev) - 30000) p
                \<and> emits_safely [] (mtimeMs (prevStat ev) - 30000) p) \<longrightarrow>
            r = Returned
            \<and> polls_of (added (stop s) s')
                = map (\<lambda>i. PollerPoll i (mtimeMs (prevStat ev) - 30000)) [0..<length (pollers s)])"
proof -
  let ?t = "stop s"
  let ?cur = "mtimeMs (currentStat ev)"
  let ?after = "mtimeMs (prevStat ev) - 30000"
  have st: "stopped ?t" "listeners ?t = []" "watcher ?t = watcher s"
    "processLock ?t = processLock s" "lastCheck ?t = lastCheck s" "pollers ?t = pollers s"
    "cache ?t = cache s" "effects ?t = effects s"
    by (simp_all add: stop_def removeAllListeners_def)
  let ?s0 = "?t\<lparr>processLock := (processLock ?t)\<lparr>free := free (processLock ?t) - 1\<rparr>,
               effects := effects ?t @ [Acquired]\<rparr>"
  from run lock st have run': "handleChangeEvent_locked trimCaches k ev ?s0 = (r, s')"
    by (simp add: handleChangeEvent_free)
  have fresh': "lastCheck ?s0 < ?cur" using fresh st by simp
  from locked_fresh [OF fresh' run'] st obtain E n where
    E: "polls_of E = map (\<lambda>i. PollerPoll i ?after) [0..<n]" "n \<le> length (pollers s)"
      "lastCheck s' = ?cur"
      "case r of
         Threw e \<Rightarrow> effects s' = effects ?s0 @ SetLastCheck ?cur # E \<and> 0 < n
       | Returned \<Rightarrow> n = length (pollers s)
           \<and> effects s' = effects ?s0 @ SetLastCheck ?cur # E @ TrimCaches #
               (if 0 < waiting (arrive k (processLock ?s0)) then [WaitMs 100] else []) @ [Released]
       | Suspended \<Rightarrow> False"
    by (cases r) auto
  have polls: "polls_of (added ?t s') = polls_of E"
    using E(4) by (cases r) (simp_all add: added_def polls_of_def)
  have pos: "pollers s \<noteq> [] \<longrightarrow> 0 < n" using E(4) by (cases r) auto
  have w: "watcher s' = watcher s" using locked_frame [OF run'] st by simp
  have full: "r = Returned \<and> n = length (pollers s)"
    if ok: "\<forall>p\<in>set (pollers s). never_throws ?after p \<and> emits_safely [] ?after p"
  proof -
    have "fst (handleChangeEvent_locked trimCaches k ev ?s0) = Returned"
      using ok st by (intro locked_returns) simp
    with run' have "r = Returned" by simp
    with E(4) show ?thesis by simp
  qed
  from st E(1-3) polls pos w full show ?thesis by auto
qed

text \<open>An instance: a started coordinator is stopped, and then handles an event.\<close>

theorem stop_leaves_watcher_witness:
  "watcher (stop ex_started)
     = Some \<lparr>watchedPaths = [''chat.db''], subscriptions = [''change'', ''error''], running = True\<rparr>
   \<and> fst (handleChangeEvent ex_trimCaches 0 ex_event (stop ex_started)) = Returned
   \<and> lastCheck (snd (handleChangeEvent ex_trimCaches 0 ex_event (stop ex_started))) = 200000
   \<and> polls_of (added (stop ex_started)
         (snd (handleChangeEvent ex_trimCaches 0 ex_event (stop ex_started))))
       = [PollerPoll 0 70000]"
proof -
  let ?run = "handleChangeEvent ex_trimCaches 0 ex_event (stop ex_started)"
  have 1: "lastCheck ex_started < mtimeMs (currentStat ex_event)"
    by (simp add: ex_started_def ex_defs run_defs)
  have 2: "0 < free (processLock ex_started)" by (simp add: ex_started_def ex_defs run_defs)
  have 3: "\<forall>p\<in>set (pollers ex_started). never_throws (mtimeMs (prevStat ex_event) - 30000) p
             \<and> emits_safely [] (mtimeMs (prevStat ex_event) - 30000) p"
    by (simp add: ex_started_def ex_defs run_defs never_throws_def emits_safely_def handled_def
        list_all_iff)
  have 4: "?run = (fst ?run, snd ?run)" by simp
  have 5: "watcher ex_started
     = Some \<lparr>watchedPaths = [''chat.db''], subscriptions = [''change'', ''error''], running = True\<rparr>"
    by (simp add: ex_started_def ex_defs run_defs)
  have 6: "pollers ex_started = [ex_poller]" by (simp add: ex_started_def ex_defs run_defs)
  from stop_leaves_watcher [OF 1 2 4] 3 5 6 show ?thesis by (simp add: ex_event_def upt_rec)
qed

text \<open>As first stated the claim fails: after the stop the watcher is still running with both subscriptions, and the handler still polls.\<close>

theorem stop_counterexample:
  "stopped (stop ex_started)
   \<and> watcher (stop ex_started)
     = Some \<lparr>watchedPaths = [''chat.db''], subscriptions = [''change'', ''error''], running = True\<rparr>
   \<and> added (stop ex_started) (snd (handleChangeEvent ex_trimCaches 0 ex_event (stop ex_started)))
     = [Acquired, SetLastCheck 200000, PollerPoll 0 70000, TrimCaches, Released]"
  by (simp add: ex_started_def ex_defs run_defs)

text \<open>
  Claim C5. A burst of notifications, all of them within a window shorter than the wait
  of 500 ms, reaching an idle decorator, leads to exactly one execution of the body of
  \<^verbatim>\<open>handleChangeEvent\<close>: it happens 500 ms after the last notification of the burst,
  with the arguments of that notification, and nothing is executed before.
\<close>

theorem debounce_collapse:
  assumes ne: "notifications \<noteq> []"
    and ordered: "sorted (map fst notifications)"
    and burst: "fst (last notifications) - fst (hd notifications) < 500"
  shows "fired (elapse T (invoke_all 500 notifications debouncer_idle))
           = (if fst (last notifications) + 500 \<le> T
              then [(fst (last notifications) + 500, snd (last notifications))] else [])
       \<and> (fst (last notifications) + 500 \<le> T \<longrightarrow>
            debounced_handleChangeEvent trimCaches k notifications T s
              = snd (handleChangeEvent trimCaches k (snd (last notifications)) s))"
proof -
  have idle: "case pending (debouncer_idle :: FileChangeEvent Debouncer) of None \<Rightarrow> True
              | Some (a, due) \<Rightarrow> \<forall>c\<in>set notifications. fst c < due"
    by (simp add: debouncer_idle_def)
  from invoke_all_burst [OF ne burst_pairwise [OF ne ordered burst] idle]
  have "invoke_all 500 notifications debouncer_idle
          = \<lparr>pending = Some (snd (last notifications), fst (last notifications) + 500),
             fired = []\<rparr>"
    by (simp add: debouncer_idle_def)
  then have f: "fired (elapse T (invoke_all 500 notifications debouncer_idle))
           = (if fst (last notifications) + 500 \<le> T
              then [(fst (last notifications) + 500, snd (last notifications))] else [])"
    by (simp add: elapse_def)
  then show ?thesis by (simp add: debounced_handleChangeEvent_def)
qed

text \<open>An instance: three notifications within 499 ms; the body runs once, at 1999, with the third.\<close>

theorem debounce_collapse_witness:
  "fired (elapse 2000 (invoke_all 500 ex_burst debouncer_idle))
     = [(1999, \<lparr>filePath = ''chat.db'', prevStat = \<lparr>mtimeMs = 200200\<rparr>,
                currentStat = \<lparr>mtimeMs = 200499\<rparr>\<rparr>)]
   \<and> lastCheck (debounced_handleChangeEvent ex_trimCaches 0 ex_burst 2000 ex_listener) = 200499
   \<and> polls_of (effects (debounced_handleChangeEvent ex_trimCaches 0 ex_burst 2000 ex_listener))
       = [PollerPoll 0 170200]"
proof -
  have 1: "ex_burst \<noteq> []" by (simp add: ex_burst_def)
  have 2: "sorted (map fst ex_burst)" by (simp add: ex_burst_def)
  have 3: "fst (last ex_burst) - fst (hd ex_burst) < 500" by (simp add: ex_burst_def)
  have 4: "fst (last ex_burst) + 500 \<le> 2000" by (simp add: ex_burst_def)
  have 5: "last ex_burst = (1499, \<lparr>filePath = ''chat.db'', prevStat = \<lparr>mtimeMs = 200200\<rparr>,
              currentStat = \<lparr>mtimeMs = 200499\<rparr>\<rparr>)"
    by (simp add: ex_burst_def)
  from debounce_collapse [OF 1 2 3, of 2000 ex_trimCaches 0 ex_listener] 4
  have f: "fired (elapse 2000 (invoke_all 500 ex_burst debouncer_idle))
           = [(fst (last ex_burst) + 500, snd (last ex_burst))]"
    and d: "debounced_handleChangeEvent ex_trimCaches 0 ex_burst 2000 ex_listener
              = snd (handleChangeEvent ex_trimCaches 0 (snd (last ex_burst)) ex_listener)"
    by simp_all
  have "lastCheck (snd (handleChangeEvent ex_trimCaches 0 (snd (last ex_burst)) ex_listener)) = 200499"
    unfolding 5 by (simp add: ex_defs run_defs)
  moreover have "polls_of (effects (snd (handleChangeEvent ex_trimCaches 0 (snd (last ex_burst)) ex_listener)))
      = [PollerPoll 0 170200]"
    unfolding 5 by (simp add: ex_defs run_defs polls_of_def)
  ultimately show ?thesis using f d 5 by simp
qed

end
